theory Spec2Isabelle
  imports Main "HOL-Library.Word"
begin

unbundle bit_operations_syntax

section \<open>The admission controller (main.go, type RateLimiter and method Allow)\<close>

text \<open>
  A \<^verbatim>\<open>time.Time\<close> obtained from \<^verbatim>\<open>time.Now()\<close> carries a monotonic clock reading, and
  \<^verbatim>\<open>Time.Sub\<close> compares two such values by their monotonic readings. A time is therefore
  modelled by its monotonic reading, an integer number of nanoseconds. A
  \<^verbatim>\<open>time.Duration\<close> is a signed 64-bit count of nanoseconds; \<^verbatim>\<open>Sub\<close> saturates at the
  least and greatest duration instead of overflowing.
\<close>

type_synonym Time = int
type_synonym Duration = int

definition minDuration :: Duration where
  "minDuration = - (2 ^ 63)"

definition maxDuration :: Duration where
  "maxDuration = 2 ^ 63 - 1"

definition Second :: Duration where
  "Second = 1000000000"

definition Minute :: Duration where
  "Minute = 60 * Second"

definition Sub :: "Time \<Rightarrow> Time \<Rightarrow> Duration" where
  "Sub t u =
     (if t - u > maxDuration then maxDuration
      else if t - u < minDuration then minDuration
      else t - u)"

text \<open>
  The struct \<^verbatim>\<open>RateLimiter\<close>. Its second field is the mutex that \<^verbatim>\<open>Allow\<close> holds from its
  first statement to its return: calls are serialised, so one call is one atomic step of
  the model and the mutex needs no field here.
\<close>

record RateLimiter =
  requests :: "string \<rightharpoonup> Time list"

text \<open>The package variable \<^verbatim>\<open>rateLimiter\<close>: an empty map.\<close>

definition rateLimiter :: RateLimiter where
  "rateLimiter = \<lparr>requests = Map.empty\<rparr>"

text \<open>Indexing a Go map: a key that is absent gives the zero value, the nil slice.\<close>

definition index_requests :: "RateLimiter \<Rightarrow> string \<Rightarrow> Time list" where
  "index_requests rl ip = (case requests rl ip of None \<Rightarrow> [] | Some reqs \<Rightarrow> reqs)"

text \<open>
  The loop of \<^verbatim>\<open>Allow\<close> (lines 110 to 115): it ranges over the stored slice and appends to
  \<^verbatim>\<open>validRequests\<close> each entry whose age is less than a minute.
\<close>

fun prune :: "Time \<Rightarrow> Time list \<Rightarrow> Time list \<Rightarrow> Time list" where
  "prune now [] validRequests = validRequests"
| "prune now (req # reqs) validRequests =
     prune now reqs (if Sub now req < Minute then validRequests @ [req] else validRequests)"

text \<open>
  \<^verbatim>\<open>Allow\<close>, with the reading of the clock (\<^verbatim>\<open>time.Now()\<close>, line 106) as an argument. The
  result is the limiter after the call and the returned boolean.
\<close>

definition Allow :: "RateLimiter \<Rightarrow> string \<Rightarrow> Time \<Rightarrow> RateLimiter \<times> bool" where
  "Allow rl ip now =
     (let reqs = index_requests rl ip;
          validRequests = prune now reqs []
      in if length validRequests \<ge> 30 then (rl, False)
         else (rl\<lparr>requests := (requests rl)(ip \<mapsto> validRequests @ [now])\<rparr>, True))"

text \<open>
  A run of the program, as far as the limiter is concerned, is the sequence of calls of
  \<^verbatim>\<open>Allow\<close> in the order in which they hold the mutex, each with its key and its reading of
  the clock. \<open>run\<close> returns the final limiter and the booleans returned, in order.
\<close>

fun run :: "RateLimiter \<Rightarrow> (string \<times> Time) list \<Rightarrow> RateLimiter \<times> bool list" where
  "run rl [] = (rl, [])"
| "run rl ((ip, now) # calls) =
     (let (rl1, ok) = Allow rl ip now;
          (rl2, oks) = run rl1 calls
      in (rl2, ok # oks))"

text \<open>
  The clock readings of the admitted calls for one key, and the booleans returned to one
  key, both in the order of the calls.
\<close>

definition admissions :: "string \<Rightarrow> (string \<times> Time) list \<Rightarrow> bool list \<Rightarrow> Time list" where
  "admissions k calls oks =
     map (snd \<circ> fst) (filter (\<lambda>(c, ok). fst c = k \<and> ok) (zip calls oks))"

definition results :: "string \<Rightarrow> (string \<times> Time) list \<Rightarrow> bool list \<Rightarrow> bool list" where
  "results k calls oks = map snd (filter (\<lambda>(c, ok). fst c = k) (zip calls oks))"

text \<open>The states the program can be in: those a run from the initial limiter ends in.\<close>

definition reachable :: "RateLimiter \<Rightarrow> bool" where
  "reachable rl = (\<exists>calls. rl = fst (run rateLimiter calls))"

text \<open>
  Auxiliary notions for the proofs. \<open>agrees L stored adm\<close>: seen from any clock reading
  from \<open>L\<close> on, the stored sequence and the sequence of all admissions have the same
  entries younger than a minute. \<open>windowed adm\<close>: no interval of one minute, open at its
  start, holds more than 30 entries of \<open>adm\<close>. \<open>stamps_le rl L\<close>: no stored timestamp
  is later than \<open>L\<close>.
\<close>

definition agrees :: "Time \<Rightarrow> Time list \<Rightarrow> Time list \<Rightarrow> bool" where
  "agrees L stored adm \<longleftrightarrow>
     (\<forall>c\<ge>L. filter (\<lambda>t. c - t < 60000000000) stored = filter (\<lambda>t. c - t < 60000000000) adm)"

definition windowed :: "Time list \<Rightarrow> bool" where
  "windowed adm \<longleftrightarrow> (\<forall>T. length (filter (\<lambda>t. T - 60000000000 < t \<and> t \<le> T) adm) \<le> 30)"

definition stamps_le :: "RateLimiter \<Rightarrow> Time \<Rightarrow> bool" where
  "stamps_le rl L \<longleftrightarrow> (\<forall>k. \<forall>t\<in>set (index_requests rl k). t \<le> L)"

text \<open>Sample input: \<open>n\<close> calls for one key, one second apart, the first at reading 0.\<close>

definition second_apart :: "string \<Rightarrow> nat \<Rightarrow> (string \<times> Time) list" where
  "second_apart ip n = map (\<lambda>i. (ip, int i * Second)) [0..<n]"

section \<open>The client key (main.go, function getClientIP)\<close>

text \<open>
  Go strings are byte strings, as \<open>string\<close> is here. \<^verbatim>\<open>strings.Split\<close> with a separator of
  one byte, as \<^verbatim>\<open>getClientIP\<close> calls it: the pieces between the separators, one more than
  there are separators, so never an empty slice.
\<close>

fun Split :: "string \<Rightarrow> char \<Rightarrow> string list" where
  "Split [] sep = [[]]"
| "Split (c # s) sep =
     (if c = sep then [] # Split s sep
      else (case Split s sep of [] \<Rightarrow> [[c]] | piece # pieces \<Rightarrow> (c # piece) # pieces))"

text \<open>\<^verbatim>\<open>strings.IndexByte\<close> and \<^verbatim>\<open>strings.LastIndexByte\<close>; \<open>None\<close> stands for -1.\<close>

fun IndexByte :: "string \<Rightarrow> char \<Rightarrow> nat option" where
  "IndexByte [] c = None"
| "IndexByte (b # s) c =
     (if b = c then Some 0 else (case IndexByte s c of None \<Rightarrow> None | Some i \<Rightarrow> Some (Suc i)))"

fun LastIndexByte :: "string \<Rightarrow> char \<Rightarrow> nat option" where
  "LastIndexByte [] c = None"
| "LastIndexByte (b # s) c =
     (case LastIndexByte s c of
        Some i \<Rightarrow> Some (Suc i)
      | None \<Rightarrow> if b = c then Some 0 else None)"

text \<open>
  \<^verbatim>\<open>net.SplitHostPort\<close> of the Go standard library: the host and the port of
  \<^verbatim>\<open>host:port\<close> or \<^verbatim>\<open>[host]:port\<close>, or an error.
\<close>

datatype AddrError = missingPort | tooManyColons | missingBracket
  | unexpectedOpenBracket | unexpectedCloseBracket

definition checkBrackets ::
  "string \<Rightarrow> string \<Rightarrow> nat \<Rightarrow> nat \<Rightarrow> nat \<Rightarrow> AddrError + string \<times> string" where
  "checkBrackets hostport host j k i =
     (if IndexByte (drop j hostport) (CHR ''['') \<noteq> None then Inl unexpectedOpenBracket
      else if IndexByte (drop k hostport) (CHR '']'') \<noteq> None then Inl unexpectedCloseBracket
      else Inr (host, drop (i + 1) hostport))"

definition SplitHostPort :: "string \<Rightarrow> AddrError + string \<times> string" where
  "SplitHostPort hostport =
     (case LastIndexByte hostport (CHR '':'') of
        None \<Rightarrow> Inl missingPort
      | Some i \<Rightarrow>
          if hostport ! 0 = CHR ''['' then
            (case IndexByte hostport (CHR '']'') of
               None \<Rightarrow> Inl missingBracket
             | Some end \<Rightarrow>
                 if end + 1 = length hostport then Inl missingPort
                 else if end + 1 = i then
                   checkBrackets hostport (take (end - 1) (drop 1 hostport)) 1 (end + 1) i
                 else if hostport ! (end + 1) = CHR '':'' then Inl tooManyColons
                 else Inl missingPort)
          else
            (let host = take i hostport
             in if IndexByte host (CHR '':'') \<noteq> None then Inl tooManyColons
                else checkBrackets hostport host 0 0 i))"

text \<open>
  What \<^verbatim>\<open>getClientIP\<close> and \<^verbatim>\<open>collectHandler\<close> read of an \<^verbatim>\<open>http.Request\<close>. \<^verbatim>\<open>Header\<close> is
  a map from header names to the values sent under that name; \<^verbatim>\<open>Header.Get\<close> gives the
  first value, or the empty string when there is none. (The canonical spelling of header
  names that net/http applies on both sides is left to the map.)
\<close>

record Request =
  Method :: string
  Header :: "string \<rightharpoonup> string list"
  RemoteAddr :: string
  Body :: string

definition Get :: "(string \<rightharpoonup> string list) \<Rightarrow> string \<Rightarrow> string" where
  "Get h key = (case h key of None \<Rightarrow> [] | Some [] \<Rightarrow> [] | Some (v # vs) \<Rightarrow> v)"

definition getClientIP :: "Request \<Rightarrow> string" where
  "getClientIP r =
     (if Get (Header r) ''X-Forwarded-For'' \<noteq> []
      then hd (Split (Get (Header r) ''X-Forwarded-For'') (CHR '',''))
      else if Get (Header r) ''X-Real-IP'' \<noteq> []
      then Get (Header r) ''X-Real-IP''
      else (case SplitHostPort (RemoteAddr r) of
              Inl err \<Rightarrow> RemoteAddr r
            | Inr (host, port) \<Rightarrow> host))"

section \<open>Rendering numbers\<close>

text \<open>
  The digits of a non-negative integer in a radix from 2 to 36, most significant first,
  with lowercase letters for the digits from ten on: what Go's \<^verbatim>\<open>appendInt\<close> and
  JavaScript's \<^verbatim>\<open>Number.prototype.toString\<close> both produce for a non-negative integer.
\<close>

definition digit_char :: "int \<Rightarrow> char" where
  "digit_char d = ''0123456789abcdefghijklmnopqrstuvwxyz'' ! nat d"

function digits :: "int \<Rightarrow> int \<Rightarrow> string" where
  "digits radix n =
     (if radix < 2 \<or> n < radix then [digit_char n]
      else digits radix (n div radix) @ [digit_char (n mod radix)])"
  by pat_completeness auto
termination
proof (relation "measure (\<lambda>(radix, n). nat n)")
  show "wf (measure (\<lambda>(radix, n). nat n))"
    by simp
next
  fix radix n :: int
  assume "\<not> (radix < 2 \<or> n < radix)"
  then have r: "2 \<le> radix" and n: "radix \<le> n"
    by simp_all
  have "n div radix < n"
    using r n by (intro int_div_less_self) simp_all
  moreover have "0 \<le> n div radix"
    using r n by (simp add: pos_imp_zdiv_nonneg_iff)
  ultimately show "((radix, n div radix), (radix, n)) \<in> measure (\<lambda>(radix, n). nat n)"
    using n r by simp
qed

declare digits.simps [simp del]

section \<open>The submission handler (main.go, function collectHandler)\<close>

record DeviceInfo =
  Timestamp :: string
  UserAgent :: string
  IPAddress :: string
  Screen :: string
  ColorDepth :: string
  Timezone :: string
  Language :: string
  Platform :: string
  CPUCores :: string
  DeviceMemory :: string
  Connection :: string
  TouchSupport :: string
  PixelRatio :: string
  AvailableScreen :: string
  CookiesEnabled :: string
  JavaEnabled :: string
  DoNotTrack :: string
  HardwareConcurrency :: string
  Vendor :: string
  Product :: string
  Battery :: string
  OnlineStatus :: string
  MaxTouchPoints :: string
  PDFViewer :: string
  WebGL :: string
  Canvas :: string
  AudioContext :: string
  LocalStorage :: string
  SessionStorage :: string
  IndexedDB :: string
  Geolocation :: string
  LocationDetails :: string
  Notifications :: string
  ServiceWorker :: string
  WebRTC :: string
  MediaDevices :: string
  DeviceOrientation :: string
  Vibration :: string
  Bluetooth :: string
  USB :: string
  Clipboard :: string
  Share :: string
  PaymentRequest :: string
  Accelerometer :: string
  Gyroscope :: string
  Magnetometer :: string
  GamepadAPI :: string
  VRDisplay :: string
  WebAssembly :: string
  CSSFeatures :: string
  FontList :: string
  Plugins :: string
  MimeTypes :: string
  ViewportSize :: string
  DeviceType :: string
  OSVersion :: string
  BrowserVersion :: string
  ReferrerPolicy :: string
  HTTPSSupport :: string
  CanvasFingerprint :: string
  WebGLFingerprint :: string
  FontFingerprint :: string

text \<open>The zero value of the struct, which \<^verbatim>\<open>var info DeviceInfo\<close> declares.\<close>

definition zero_DeviceInfo :: DeviceInfo where
  "zero_DeviceInfo = \<lparr>Timestamp = '''',
     UserAgent = '''',
     IPAddress = '''',
     Screen = '''',
     ColorDepth = '''',
     Timezone = '''',
     Language = '''',
     Platform = '''',
     CPUCores = '''',
     DeviceMemory = '''',
     Connection = '''',
     TouchSupport = '''',
     PixelRatio = '''',
     AvailableScreen = '''',
     CookiesEnabled = '''',
     JavaEnabled = '''',
     DoNotTrack = '''',
     HardwareConcurrency = '''',
     Vendor = '''',
     Product = '''',
     Battery = '''',
     OnlineStatus = '''',
     MaxTouchPoints = '''',
     PDFViewer = '''',
     WebGL = '''',
     Canvas = '''',
     AudioContext = '''',
     LocalStorage = '''',
     SessionStorage = '''',
     IndexedDB = '''',
     Geolocation = '''',
     LocationDetails = '''',
     Notifications = '''',
     ServiceWorker = '''',
     WebRTC = '''',
     MediaDevices = '''',
     DeviceOrientation = '''',
     Vibration = '''',
     Bluetooth = '''',
     USB = '''',
     Clipboard = '''',
     Share = '''',
     PaymentRequest = '''',
     Accelerometer = '''',
     Gyroscope = '''',
     Magnetometer = '''',
     GamepadAPI = '''',
     VRDisplay = '''',
     WebAssembly = '''',
     CSSFeatures = '''',
     FontList = '''',
     Plugins = '''',
     MimeTypes = '''',
     ViewportSize = '''',
     DeviceType = '''',
     OSVersion = '''',
     BrowserVersion = '''',
     ReferrerPolicy = '''',
     HTTPSSupport = '''',
     CanvasFingerprint = '''',
     WebGLFingerprint = '''',
     FontFingerprint = ''''\<rparr>"

record Response =
  Status :: string
  Message :: string
  Data :: "DeviceInfo option"

text \<open>
  What the handler writes: the status code and the JSON value of the body, if any. The
  access-control headers that every reply carries are constant and left out.
\<close>

record Reply =
  StatusCode :: nat
  Payload :: "Response option"

text \<open>
  The two message literals of the handler that are written in Chinese, as their UTF-8
  bytes: the one of the rate limit (line 177) and the one of success (line 208).
\<close>

definition msgTooFrequent :: string where
  "msgTooFrequent = map char_of
     ([232, 175, 183, 230, 177, 130, 232, 191, 135, 228, 186, 142, 233, 162, 145, 231, 185, 129, 239, 188, 140, 232, 175, 183, 231, 168, 141, 229, 144, 142, 229, 134, 141, 232, 175, 149] :: nat list)"

definition msgCollected :: string where
  "msgCollected = map char_of
     ([232, 174, 190, 229, 164, 135, 228, 191, 161, 230, 129, 175, 230, 148, 182, 233, 155, 134, 230, 136, 144, 229, 138, 159] :: nat list)"

text \<open>
  The local calendar date and time of day of a clock reading, which \<^verbatim>\<open>Time.Format\<close>
  renders: the results of Go's \<^verbatim>\<open>Time.Date\<close> and \<^verbatim>\<open>Time.Clock\<close>. \<^verbatim>\<open>appendInt\<close> is modelled
  for numbers that are not negative, as those of the system clock are.
\<close>

record Civil =
  civil_year :: int
  civil_month :: int
  civil_day :: int
  civil_hour :: int
  civil_min :: int
  civil_sec :: int

text \<open>Go's \<^verbatim>\<open>appendInt\<close>: decimal, padded with zeros on the left up to the width.\<close>

definition appendInt :: "int \<Rightarrow> nat \<Rightarrow> string" where
  "appendInt x width = replicate (width - length (digits 10 x)) (CHR ''0'') @ digits 10 x"

text \<open>\<^verbatim>\<open>Time.Format\<close> for the layout \<^verbatim>\<open>2006-01-02 15:04:05\<close>.\<close>

definition Format :: "Civil \<Rightarrow> string" where
  "Format t =
     appendInt (civil_year t) 4 @ ''-'' @ appendInt (civil_month t) 2 @ ''-'' @ appendInt (civil_day t) 2 @ '' ''
       @ appendInt (civil_hour t) 2 @ '':'' @ appendInt (civil_min t) 2 @ '':'' @ appendInt (civil_sec t) 2"

text \<open>
  \<^verbatim>\<open>collectHandler\<close>. Its inputs besides the request: \<open>Decode\<close>, the JSON decoding of the
  body into a \<^verbatim>\<open>DeviceInfo\<close> (the error text on failure); the limiter; the clock reading
  that \<^verbatim>\<open>Allow\<close> takes; and the local date and time read at line 198. The lines printed
  to the console are left out.
\<close>

definition collectHandler ::
  "(string \<Rightarrow> string + DeviceInfo) \<Rightarrow> RateLimiter \<Rightarrow> Request \<Rightarrow> Time \<Rightarrow> Civil
     \<Rightarrow> RateLimiter \<times> Reply" where
  "collectHandler Decode rl r now clock =
     (if Method r = ''OPTIONS'' then (rl, \<lparr>StatusCode = 200, Payload = None\<rparr>)
      else if Method r \<noteq> ''POST'' then
        (rl, \<lparr>StatusCode = 405, Payload = Some
           \<lparr>Status = ''error'', Message = ''Only POST method is allowed'', Data = None\<rparr>\<rparr>)
      else
        (let ip = getClientIP r;
             (rl', ok) = Allow rl ip now
         in if \<not> ok then
              (rl', \<lparr>StatusCode = 429, Payload = Some
                 \<lparr>Status = ''error'', Message = msgTooFrequent, Data = None\<rparr>\<rparr>)
            else
              (case Decode (Body r) of
                 Inl err \<Rightarrow>
                   (rl', \<lparr>StatusCode = 400, Payload = Some
                      \<lparr>Status = ''error'', Message = ''Invalid JSON format: '' @ err,
                       Data = None\<rparr>\<rparr>)
               | Inr info \<Rightarrow>
                   (rl', \<lparr>StatusCode = 200, Payload = Some
                      \<lparr>Status = ''success'', Message = msgCollected,
                       Data = Some (info\<lparr>Timestamp := Format clock, IPAddress := ip\<rparr>)\<rparr>\<rparr>))))"

text \<open>The record in the reply, if there is one.\<close>

definition returned_record :: "Reply \<Rightarrow> DeviceInfo option" where
  "returned_record reply = (case Payload reply of None \<Rightarrow> None | Some resp \<Rightarrow> Data resp)"

text \<open>
  The shape of a string: every decimal digit replaced by \<open>0\<close>, every other byte kept. A
  string has the form \<^verbatim>\<open>YYYY-MM-DD HH:MM:SS\<close> when its shape is
  \<^verbatim>\<open>0000-00-00 00:00:00\<close>.
\<close>

definition decimal_digit :: "char \<Rightarrow> bool" where
  "decimal_digit c = (c \<in> set ''0123456789'')"

definition shape :: "string \<Rightarrow> string" where
  "shape s = map (\<lambda>c. if decimal_digit c then CHR ''0'' else c) s"

definition is_timestamp :: "string \<Rightarrow> bool" where
  "is_timestamp s = (shape s = ''0000-00-00 00:00:00'')"

text \<open>The range of a date and time of day, for years of up to four digits.\<close>

definition valid_civil :: "Civil \<Rightarrow> bool" where
  "valid_civil t =
     (0 \<le> civil_year t \<and> civil_year t \<le> 9999 \<and> 1 \<le> civil_month t \<and> civil_month t \<le> 12
      \<and> 1 \<le> civil_day t \<and> civil_day t \<le> 31
      \<and> 0 \<le> civil_hour t \<and> civil_hour t < 24 \<and> 0 \<le> civil_min t \<and> civil_min t < 60 \<and> 0 \<le> civil_sec t \<and> civil_sec t < 60)"

section \<open>The fingerprint reducer (main.go, the script's function hashString)\<close>

text \<open>
  A JavaScript string is a sequence of 16-bit code units; \<^verbatim>\<open>charCodeAt\<close> gives the unit as
  a number. The numbers in \<^verbatim>\<open>hashString\<close> are integers far below \<open>2 ^ 53\<close>, so the
  arithmetic on them is exact and they are modelled by \<open>int\<close>. \<open>ToInt32\<close> is the
  conversion that the operators \<^verbatim>\<open><<\<close> and \<^verbatim>\<open>&\<close> apply to their operands and their result.
\<close>

type_synonym js_string = "16 word list"

definition ToInt32 :: "int \<Rightarrow> int" where
  "ToInt32 x = (let m = x mod 2 ^ 32 in if m \<ge> 2 ^ 31 then m - 2 ^ 32 else m)"

text \<open>The body of the loop (lines 1019 to 1021), from \<open>hash\<close> to its next value.\<close>

definition hash_step :: "int \<Rightarrow> 16 word \<Rightarrow> int" where
  "hash_step hash c =
     (let char = uint c;
          hash1 = (ToInt32 (ToInt32 hash * 2 ^ 5) - hash) + char
      in ToInt32 hash1)"

fun hash_loop :: "int \<Rightarrow> js_string \<Rightarrow> int" where
  "hash_loop hash [] = hash"
| "hash_loop hash (c # str) = hash_loop (hash_step hash c) str"

text \<open>\<^verbatim>\<open>Number.prototype.toString\<close> of an integer, with the radix.\<close>

definition Number_toString :: "int \<Rightarrow> int \<Rightarrow> string" where
  "Number_toString x radix =
     (if x < 0 then CHR ''-'' # digits radix (- x) else digits radix x)"

definition hashString :: "js_string \<Rightarrow> string" where
  "hashString str =
     (if length str = 0 then Number_toString 0 10
      else Number_toString \<bar>hash_loop 0 str\<bar> 16)"

text \<open>
  The algorithm in the words of the specification: a 32-bit accumulator, initially zero,
  updated for each character code \<open>c\<close> by \<open>acc = (acc << 5) - acc + c\<close> in two's-complement
  32-bit arithmetic.
\<close>

definition spec_step :: "32 word \<Rightarrow> 16 word \<Rightarrow> 32 word" where
  "spec_step acc c = push_bit 5 acc - acc + ucast c"

definition spec_accumulator :: "js_string \<Rightarrow> 32 word" where
  "spec_accumulator str = foldl spec_step 0 str"

text \<open>
  Lowercase hexadecimal without leading zeros and without a sign: a non-empty string of
  the digits \<^verbatim>\<open>0\<close> to \<^verbatim>\<open>9\<close> and \<^verbatim>\<open>a\<close> to \<^verbatim>\<open>f\<close> that is \<^verbatim>\<open>0\<close> itself or does not start with
  \<^verbatim>\<open>0\<close>; and the number such a string denotes.
\<close>

definition lower_hex_digit :: "char \<Rightarrow> bool" where
  "lower_hex_digit c = (c \<in> set ''0123456789abcdef'')"

definition is_lower_hex :: "string \<Rightarrow> bool" where
  "is_lower_hex s =
     (s \<noteq> [] \<and> list_all lower_hex_digit s \<and> (s = ''0'' \<or> hd s \<noteq> CHR ''0''))"

definition hex_digit_value :: "char \<Rightarrow> int" where
  "hex_digit_value c =
     (if decimal_digit c then of_char c - 48 else of_char c - 87)"

definition hex_value :: "string \<Rightarrow> int" where
  "hex_value s = foldl (\<lambda>v c. 16 * v + hex_digit_value c) 0 s"

text \<open>
  A variant of \<^verbatim>\<open>hashString\<close> that is not in the program: it takes the absolute value in
  32-bit two's-complement arithmetic, where the program takes it on numbers.
\<close>

definition hashString_abs32 :: "js_string \<Rightarrow> string" where
  "hashString_abs32 str =
     (if length str = 0 then Number_toString 0 10
      else Number_toString (ToInt32 \<bar>hash_loop 0 str\<bar>) 16)"

text \<open>A string of bytes below 128 as a JavaScript string.\<close>

definition ascii :: "string \<Rightarrow> js_string" where
  "ascii s = map (\<lambda>c. word_of_nat (of_char c)) s"

text \<open>Sample requests: one with both headers, one with the real-IP header only, one with neither.\<close>

definition sample_forwarded :: Request where
  "sample_forwarded = \<lparr>Method = ''POST'',
     Header = [''X-Forwarded-For'' \<mapsto> [''203.0.113.5, 10.0.0.1''], ''X-Real-IP'' \<mapsto> [''10.0.0.9'']],
     RemoteAddr = ''10.0.0.1:40000'', Body = ''{}''\<rparr>"

definition sample_real_ip :: Request where
  "sample_real_ip = \<lparr>Method = ''POST'', Header = [''X-Real-IP'' \<mapsto> [''198.51.100.7'']],
     RemoteAddr = ''10.0.0.1:40000'', Body = ''{}''\<rparr>"

definition sample_direct :: Request where
  "sample_direct = \<lparr>Method = ''POST'', Header = Map.empty,
     RemoteAddr = ''192.0.2.44:51234'', Body = ''{}''\<rparr>"

text \<open>
  Sample input: the request of a client that reports the user agent \<^verbatim>\<open>test-agent\<close> and
  made-up values for the two fields the server assigns, its decoded body, and a clock.
\<close>

definition sample_submission :: Request where
  "sample_submission = \<lparr>Method = ''POST'', Header = [''X-Forwarded-For'' \<mapsto> [''203.0.113.5'']],
     RemoteAddr = ''10.0.0.1:40000'', Body = ''{\"userAgent\":\"test-agent\"}''\<rparr>"

definition sample_info :: DeviceInfo where
  "sample_info = zero_DeviceInfo\<lparr>Timestamp := ''yesterday'', UserAgent := ''test-agent'',
     IPAddress := ''127.0.0.1''\<rparr>"

definition sample_clock :: Civil where
  "sample_clock = \<lparr>civil_year = 2026, civil_month = 10, civil_day = 31,
     civil_hour = 5, civil_min = 36, civil_sec = 7\<rparr>"

section \<open>Properties of the admission controller\<close>

lemma Sub_less_Minute: "Sub t u < Minute \<longleftrightarrow> t - u < 60000000000"
  by (simp add: Sub_def Minute_def Second_def maxDuration_def minDuration_def)

lemma prune_filter:
  "prune now reqs valid = valid @ filter (\<lambda>req. Sub now req < Minute) reqs"
  by (induction reqs arbitrary: valid) simp_all

lemma Allow_denied:
  "length (filter (\<lambda>req. Sub now req < Minute) (index_requests rl ip)) \<ge> 30
   \<Longrightarrow> Allow rl ip now = (rl, False)"
  by (simp add: Allow_def prune_filter)

lemma Allow_admitted:
  "length (filter (\<lambda>req. Sub now req < Minute) (index_requests rl ip)) < 30
   \<Longrightarrow> Allow rl ip now =
       (rl\<lparr>requests := (requests rl)
          (ip \<mapsto> filter (\<lambda>req. Sub now req < Minute) (index_requests rl ip) @ [now])\<rparr>, True)"
  by (simp add: Allow_def prune_filter)

lemma index_requests_Allow_other:
  "k \<noteq> ip \<Longrightarrow> index_requests (fst (Allow rl ip now)) k = index_requests rl k"
  by (simp add: Allow_def index_requests_def Let_def)

lemma index_requests_Allow_same:
  "index_requests (fst (Allow rl ip now)) ip =
     (if snd (Allow rl ip now)
      then filter (\<lambda>req. Sub now req < Minute) (index_requests rl ip) @ [now]
      else index_requests rl ip)"
  by (simp add: Allow_def index_requests_def Let_def prune_filter)

lemma snd_Allow:
  "snd (Allow rl ip now) \<longleftrightarrow>
     length (filter (\<lambda>req. Sub now req < Minute) (index_requests rl ip)) < 30"
  by (simp add: Allow_def prune_filter Let_def)

lemma length_index_requests_Allow:
  "length (index_requests rl k) \<le> 30
   \<Longrightarrow> length (index_requests (fst (Allow rl ip now)) k) \<le> 30"
  by (cases "k = ip") (auto simp: index_requests_Allow_other index_requests_Allow_same snd_Allow)

lemma fst_run_Cons:
  "fst (run rl ((ip, now) # calls)) = fst (run (fst (Allow rl ip now)) calls)"
  by (simp add: case_prod_beta)

lemma snd_run_Cons:
  "snd (run rl ((ip, now) # calls)) =
     snd (Allow rl ip now) # snd (run (fst (Allow rl ip now)) calls)"
  by (simp add: case_prod_beta)

lemma fst_run_append:
  "fst (run rl (calls @ calls')) = fst (run (fst (run rl calls)) calls')"
  by (induction calls arbitrary: rl) (auto simp: case_prod_beta)

lemma snd_run_append:
  "snd (run rl (calls @ calls')) =
     snd (run rl calls) @ snd (run (fst (run rl calls)) calls')"
  by (induction calls arbitrary: rl) (auto simp: case_prod_beta)

lemma length_run: "length (snd (run rl calls)) = length calls"
  by (induction calls arbitrary: rl) (auto simp: case_prod_beta)

lemma length_index_requests_run:
  "length (index_requests rl k) \<le> 30
   \<Longrightarrow> length (index_requests (fst (run rl calls)) k) \<le> 30"
proof (induction calls arbitrary: rl)
  case Nil
  then show ?case by simp
next
  case (Cons c calls)
  obtain ip now where c: "c = (ip, now)" by (cases c)
  have "length (index_requests (fst (Allow rl ip now)) k) \<le> 30"
    using Cons.prems by (rule length_index_requests_Allow)
  from Cons.IH [OF this] show ?case
    by (simp add: c fst_run_Cons del: run.simps)
qed

lemma reachable_length: "reachable rl \<Longrightarrow> length (index_requests rl k) \<le> 30"
  unfolding reachable_def
  using length_index_requests_run [of rateLimiter k]
  by (auto simp: rateLimiter_def index_requests_def)

lemma filter_Sub: "filter (\<lambda>req. Sub now req < Minute) xs = filter (\<lambda>t. now - t < 60000000000) xs"
  by (simp add: Sub_less_Minute)

text \<open>
  C1. In every state the program can be in, \<open>Allow\<close> called for a key at clock reading
  \<open>now\<close> returns false and leaves the limiter as it is when at least 30 of the key's
  stored timestamps are younger than 60 seconds, and otherwise stores for the key those
  younger timestamps followed by \<open>now\<close> and returns true. Either way the key's stored
  sequence after the call is its old sequence without the timestamps that are 60 seconds
  old or older, followed by \<open>now\<close> exactly when the call returned true.
\<close>

theorem Allow_effect:
  assumes "reachable rl"
  shows "Allow rl ip now =
           (if 30 \<le> length (filter (\<lambda>t. now - t < 60000000000) (index_requests rl ip))
            then (rl, False)
            else (rl\<lparr>requests := (requests rl)
                   (ip \<mapsto> filter (\<lambda>t. now - t < 60000000000) (index_requests rl ip) @ [now])\<rparr>,
                  True))
         \<and> index_requests (fst (Allow rl ip now)) ip =
             filter (\<lambda>t. now - t < 60000000000) (index_requests rl ip)
               @ (if snd (Allow rl ip now) then [now] else [])"
proof -
  let ?valid = "filter (\<lambda>t. now - t < 60000000000) (index_requests rl ip)"
  have eq: "Allow rl ip now =
           (if 30 \<le> length ?valid then (rl, False)
            else (rl\<lparr>requests := (requests rl)(ip \<mapsto> ?valid @ [now])\<rparr>, True))"
    by (simp add: Allow_def prune_filter filter_Sub)
  have len: "length (index_requests rl ip) \<le> 30"
    using assms by (rule reachable_length)
  have "index_requests (fst (Allow rl ip now)) ip = ?valid @ (if snd (Allow rl ip now) then [now] else [])"
  proof (cases "30 \<le> length ?valid")
    case True
    have "length ?valid \<le> length (index_requests rl ip)" by simp
    with True len have "length ?valid = length (index_requests rl ip)" by linarith
    then have "?valid = index_requests rl ip"
      by (metis length_filter_less linorder_neq_iff filter_True)
    with True eq show ?thesis by simp
  next
    case False
    with eq show ?thesis by (simp add: index_requests_def)
  qed
  with eq show ?thesis by blast
qed

theorem Allow_effect_witness:
  "reachable (fst (run rateLimiter (second_apart ''203.0.113.5'' 30)))
   \<and> Allow (fst (run rateLimiter (second_apart ''203.0.113.5'' 30))) ''203.0.113.5'' (30 * Second)
       = (fst (run rateLimiter (second_apart ''203.0.113.5'' 30)), False)"
proof -
  let ?rl = "fst (run rateLimiter (second_apart ''203.0.113.5'' 30))"
  have r: "reachable ?rl"
    unfolding reachable_def by blast
  have full: "30 \<le> length (filter (\<lambda>t. 30 * Second - t < 60000000000)
                             (index_requests ?rl ''203.0.113.5''))"
    by code_simp
  show ?thesis
    using r full Allow_effect [OF r, of "''203.0.113.5''" "30 * Second"] by simp
qed

lemma agrees_mono: "L \<le> L' \<Longrightarrow> agrees L s a \<Longrightarrow> agrees L' s a"
  by (simp add: agrees_def)

lemma agrees_admit:
  assumes "agrees now s a"
  shows "agrees now (filter (\<lambda>t. now - t < 60000000000) s @ [now]) (a @ [now])"
  unfolding agrees_def
proof (intro allI impI)
  fix c :: int assume c: "now \<le> c"
  have "filter (\<lambda>t. c - t < 60000000000) (filter (\<lambda>t. now - t < 60000000000) s)
        = filter (\<lambda>t. c - t < 60000000000) s"
    using c by (auto simp: filter_filter intro!: filter_cong)
  moreover have "filter (\<lambda>t. c - t < 60000000000) s = filter (\<lambda>t. c - t < 60000000000) a"
    using assms c by (simp add: agrees_def)
  ultimately show "filter (\<lambda>t. c - t < 60000000000) (filter (\<lambda>t. now - t < 60000000000) s @ [now])
        = filter (\<lambda>t. c - t < 60000000000) (a @ [now])"
    by simp
qed

lemma length_filter_mono:
  "(\<And>x. x \<in> set xs \<Longrightarrow> P x \<Longrightarrow> Q x) \<Longrightarrow> length (filter P xs) \<le> length (filter Q xs)"
  by (induction xs) auto

lemma windowed_admit:
  assumes ag: "agrees now s a"
    and lt: "length (filter (\<lambda>t. now - t < 60000000000) s) < 30"
    and w: "windowed a"
  shows "windowed (a @ [now])"
  unfolding windowed_def
proof
  fix T :: int
  show "length (filter (\<lambda>t. T - 60000000000 < t \<and> t \<le> T) (a @ [now])) \<le> 30"
  proof (cases "now \<le> T")
    case False
    then show ?thesis using w by (simp add: windowed_def)
  next
    case True
    have "length (filter (\<lambda>t. T - 60000000000 < t \<and> t \<le> T) a)
          \<le> length (filter (\<lambda>t. now - t < 60000000000) a)"
      using True by (intro length_filter_mono) auto
    also have "filter (\<lambda>t. now - t < 60000000000) a = filter (\<lambda>t. now - t < 60000000000) s"
      using ag by (simp add: agrees_def)
    finally show ?thesis using lt by simp
  qed
qed

lemma admissions_snoc:
  "length oks = length calls \<Longrightarrow>
   admissions k (calls @ [(ip, now)]) (oks @ [ok]) =
     admissions k calls oks @ (if ip = k \<and> ok then [now] else [])"
  by (simp add: admissions_def)

lemma run_invariant:
  assumes "sorted (map snd calls)"
  shows "(\<forall>L. (\<forall>c\<in>set calls. snd c \<le> L) \<longrightarrow>
            agrees L (index_requests (fst (run rateLimiter calls)) k)
                     (admissions k calls (snd (run rateLimiter calls))))
         \<and> windowed (admissions k calls (snd (run rateLimiter calls)))"
  using assms
proof (induction calls rule: rev_induct)
  case Nil
  show ?case
    by (simp add: agrees_def windowed_def admissions_def rateLimiter_def index_requests_def)
next
  case (snoc c calls)
  obtain ip now where c: "c = (ip, now)" by (cases c)
  let ?rl = "fst (run rateLimiter calls)"
  let ?oks = "snd (run rateLimiter calls)"
  let ?adm = "admissions k calls ?oks"
  let ?ok = "snd (Allow ?rl ip now)"
  from snoc.prems have sorted: "sorted (map snd calls)" and le: "\<forall>c\<in>set calls. snd c \<le> now"
    by (auto simp: c sorted_append)
  from snoc.IH [OF sorted] le
  have ag: "agrees now (index_requests ?rl k) ?adm" and w: "windowed ?adm" by blast+
  have fst_eq: "fst (run rateLimiter (calls @ [(ip, now)])) = fst (Allow ?rl ip now)"
    by (simp add: fst_run_append case_prod_beta)
  have snd_eq: "snd (run rateLimiter (calls @ [(ip, now)])) = ?oks @ [?ok]"
    by (simp add: snd_run_append case_prod_beta)
  have adm_eq: "admissions k (calls @ [(ip, now)]) (snd (run rateLimiter (calls @ [(ip, now)])))
                = ?adm @ (if ip = k \<and> ?ok then [now] else [])"
    unfolding snd_eq by (rule admissions_snoc) (simp add: length_run)
  have "(\<forall>L. (\<forall>c\<in>set (calls @ [(ip, now)]). snd c \<le> L) \<longrightarrow>
            agrees L (index_requests (fst (Allow ?rl ip now)) k)
                     (?adm @ (if ip = k \<and> ?ok then [now] else [])))
        \<and> windowed (?adm @ (if ip = k \<and> ?ok then [now] else []))"
  proof (cases "ip = k \<and> ?ok")
    case True
    then have lt: "length (filter (\<lambda>t. now - t < 60000000000) (index_requests ?rl k)) < 30"
      by (auto simp: snd_Allow filter_Sub)
    have st: "index_requests (fst (Allow ?rl ip now)) k
              = filter (\<lambda>t. now - t < 60000000000) (index_requests ?rl k) @ [now]"
      using True by (auto simp: index_requests_Allow_same filter_Sub)
    have "agrees now (index_requests (fst (Allow ?rl ip now)) k) (?adm @ [now])"
      unfolding st using ag by (rule agrees_admit)
    moreover have "windowed (?adm @ [now])"
      using ag lt w by (rule windowed_admit)
    ultimately show ?thesis
      using True by (auto intro: agrees_mono)
  next
    case False
    then have st: "index_requests (fst (Allow ?rl ip now)) k = index_requests ?rl k"
      by (cases "ip = k") (auto simp: index_requests_Allow_same index_requests_Allow_other)
    show ?thesis
      unfolding st using False ag w
      by (auto intro: agrees_mono)
  qed
  then show ?case
    unfolding c fst_eq adm_eq .
qed

text \<open>
  C2. In a run from the initial limiter in which the clock readings do not decrease, for
  every key \<open>k\<close> and every instant \<open>T\<close>, at most 30 of the admitted calls for \<open>k\<close> have
  their reading in the 60 seconds that end at \<open>T\<close> (later than \<open>T\<close> minus 60 seconds, not
  later than \<open>T\<close>), and at the end of the run the stored sequence of \<open>k\<close> has at most 30
  entries.
\<close>

theorem at_most_30_admissions:
  assumes "sorted (map snd calls)"
  shows "length (filter (\<lambda>t. T - 60000000000 < t \<and> t \<le> T)
                   (admissions k calls (snd (run rateLimiter calls)))) \<le> 30
         \<and> length (index_requests (fst (run rateLimiter calls)) k) \<le> 30"
proof -
  have "windowed (admissions k calls (snd (run rateLimiter calls)))"
    using run_invariant [OF assms] by blast
  moreover have "reachable (fst (run rateLimiter calls))"
    by (auto simp: reachable_def)
  ultimately show ?thesis
    by (simp add: windowed_def reachable_length)
qed

theorem at_most_30_admissions_witness:
  "sorted (map snd (second_apart ''203.0.113.5'' 40))
   \<and> length (filter (\<lambda>t. 39 * Second - 60000000000 < t \<and> t \<le> 39 * Second)
         (admissions ''203.0.113.5'' (second_apart ''203.0.113.5'' 40)
            (snd (run rateLimiter (second_apart ''203.0.113.5'' 40))))) \<le> 30
   \<and> length (index_requests (fst (run rateLimiter (second_apart ''203.0.113.5'' 40)))
         ''203.0.113.5'') \<le> 30"
proof -
  have s: "sorted (map snd (second_apart ''203.0.113.5'' 40))"
    by code_simp
  show ?thesis
    using s at_most_30_admissions [OF s, of "39 * Second" "''203.0.113.5''"] by simp
qed

lemma stamps_le_Allow:
  assumes "stamps_le rl L" "L \<le> now"
  shows "stamps_le (fst (Allow rl ip now)) now"
  unfolding stamps_le_def
proof (intro allI ballI)
  fix k t assume t: "t \<in> set (index_requests (fst (Allow rl ip now)) k)"
  show "t \<le> now"
  proof (cases "k = ip")
    case True
    with t have "t = now \<or> t \<in> set (index_requests rl ip)"
      by (auto simp: index_requests_Allow_same split: if_splits)
    moreover have "t \<in> set (index_requests rl ip) \<Longrightarrow> t \<le> L"
      using assms(1) by (simp add: stamps_le_def)
    ultimately show ?thesis using assms(2) by auto
  next
    case False
    with t have "t \<in> set (index_requests rl k)"
      by (simp add: index_requests_Allow_other)
    then have "t \<le> L" using assms(1) by (simp add: stamps_le_def)
    with assms(2) show ?thesis by simp
  qed
qed

lemma stamps_le_mono: "stamps_le rl L \<Longrightarrow> L \<le> L' \<Longrightarrow> stamps_le rl L'"
  unfolding stamps_le_def by (meson order_trans)

lemma stamps_le_run:
  assumes "sorted (map snd calls)"
  shows "\<forall>L. (\<forall>c\<in>set calls. snd c \<le> L) \<longrightarrow> stamps_le (fst (run rateLimiter calls)) L"
  using assms
proof (induction calls rule: rev_induct)
  case Nil
  show ?case by (simp add: stamps_le_def rateLimiter_def index_requests_def)
next
  case (snoc c calls)
  obtain ip now where c: "c = (ip, now)" by (cases c)
  from snoc.prems have sorted: "sorted (map snd calls)" and le: "\<forall>c\<in>set calls. snd c \<le> now"
    by (auto simp: c sorted_append)
  from snoc.IH [OF sorted] le have "stamps_le (fst (run rateLimiter calls)) now" by blast
  then have "stamps_le (fst (Allow (fst (run rateLimiter calls)) ip now)) now"
    by (rule stamps_le_Allow) simp
  then show ?case
    by (auto simp: fst_run_append c case_prod_beta intro: stamps_le_mono)
qed

text \<open>
  C4, as amended. In a run from the initial limiter in which the clock readings do not
  decrease, at the moment a call of \<open>Allow\<close> for a key at reading \<open>now\<close> returns, true or
  false, every timestamp stored for that key is at most \<open>now\<close> and less than 60 seconds
  before it. (A denied call writes nothing back, but a reachable sequence has at most 30
  entries, so a denial means that none of them had left the window.)
\<close>

theorem stored_within_window:
  assumes "sorted (map snd (calls @ [(k, now)]))"
  shows "\<forall>t\<in>set (index_requests (fst (run rateLimiter (calls @ [(k, now)]))) k).
           t \<le> now \<and> now - t < 60000000000"
proof
  fix t assume t: "t \<in> set (index_requests (fst (run rateLimiter (calls @ [(k, now)]))) k)"
  let ?rl = "fst (run rateLimiter calls)"
  have "\<forall>c\<in>set (calls @ [(k, now)]). snd c \<le> now"
    using assms by (auto simp: sorted_append)
  with stamps_le_run [OF assms]
  have "stamps_le (fst (run rateLimiter (calls @ [(k, now)]))) now"
    by blast
  with t have "t \<le> now" by (auto simp: stamps_le_def)
  have len: "length (index_requests ?rl k) \<le> 30"
    by (rule reachable_length) (auto simp: reachable_def)
  have st: "index_requests (fst (run rateLimiter (calls @ [(k, now)]))) k
        = index_requests (fst (Allow ?rl k now)) k"
    by (simp add: fst_run_append case_prod_beta)
  have "now - t < 60000000000"
  proof (cases "snd (Allow ?rl k now)")
    case True
    with t show ?thesis
      unfolding st by (auto simp: index_requests_Allow_same filter_Sub)
  next
    case False
    then have "30 \<le> length (filter (\<lambda>t. now - t < 60000000000) (index_requests ?rl k))"
      by (simp add: snd_Allow filter_Sub)
    moreover have "length (filter (\<lambda>t. now - t < 60000000000) (index_requests ?rl k))
          \<le> length (index_requests ?rl k)" by simp
    ultimately have "length (filter (\<lambda>t. now - t < 60000000000) (index_requests ?rl k))
          = length (index_requests ?rl k)" using len by linarith
    then have "filter (\<lambda>t. now - t < 60000000000) (index_requests ?rl k) = index_requests ?rl k"
      by (metis length_filter_less linorder_neq_iff filter_True)
    then have "\<forall>t\<in>set (index_requests ?rl k). now - t < 60000000000"
      by (metis (mono_tags, lifting) filter_id_conv)
    with t False show ?thesis
      unfolding st by (simp add: index_requests_Allow_same)
  qed
  with \<open>t \<le> now\<close> show "t \<le> now \<and> now - t < 60000000000" by simp
qed

theorem stored_within_window_witness:
  "sorted (map snd (second_apart ''192.0.2.1'' 30 @ [(''192.0.2.1'', 30 * Second)]))
   \<and> 0 \<in> set (index_requests
         (fst (run rateLimiter (second_apart ''192.0.2.1'' 30 @ [(''192.0.2.1'', 30 * Second)])))
         ''192.0.2.1'')
   \<and> 0 \<le> 30 * Second \<and> 30 * Second - 0 < 60000000000"
proof -
  have s: "sorted (map snd (second_apart ''192.0.2.1'' 30 @ [(''192.0.2.1'', 30 * Second)]))"
    by code_simp
  have m: "0 \<in> set (index_requests
         (fst (run rateLimiter (second_apart ''192.0.2.1'' 30 @ [(''192.0.2.1'', 30 * Second)])))
         ''192.0.2.1'')"
    by code_simp
  show ?thesis
    using s m stored_within_window [OF s] by blast
qed

text \<open>
  C4, as stated, fails at the later points of a run: pruning happens only inside a call for
  the key itself, and only an admitted call stores its result. After a call for one key at
  reading 0 and a call for another key at 100 seconds, both admitted, the first key's
  stored sequence still holds the timestamp 0, which is 100 seconds old.
\<close>

theorem stale_between_calls:
  "snd (run rateLimiter [(''10.0.0.1'', 0), (''10.0.0.2'', 100 * Second)]) = [True, True]
   \<and> index_requests (fst (run rateLimiter [(''10.0.0.1'', 0), (''10.0.0.2'', 100 * Second)]))
         ''10.0.0.1'' = [0]
   \<and> \<not> (100 * Second - 0 < 60000000000)"
  by code_simp

text \<open>
  C5. A call of \<open>Allow\<close> that returns false records nothing: the limiter after the call is
  the limiter before it, in every state.
\<close>

theorem Allow_denied_no_effect:
  "snd (Allow rl ip now) = False \<Longrightarrow> fst (Allow rl ip now) = rl"
  by (simp add: Allow_def Let_def split: if_splits)

theorem Allow_denied_no_effect_witness:
  "snd (Allow (fst (run rateLimiter (second_apart ''198.51.100.7'' 30))) ''198.51.100.7''
          (45 * Second)) = False
   \<and> fst (Allow (fst (run rateLimiter (second_apart ''198.51.100.7'' 30))) ''198.51.100.7''
          (45 * Second)) = fst (run rateLimiter (second_apart ''198.51.100.7'' 30))"
proof -
  have d: "snd (Allow (fst (run rateLimiter (second_apart ''198.51.100.7'' 30))) ''198.51.100.7''
             (45 * Second)) = False"
    by code_simp
  show ?thesis
    using d Allow_denied_no_effect [OF d] by simp
qed

text \<open>
  C6. Let a key have 30 stored timestamps and let a call for it be denied. Once the clock
  reading is 60 seconds or more past the oldest of the 30, the next call for the key
  returns true; and when that oldest one is the only stored timestamp that has left the
  window, the key's stored sequence holds 30 entries again after the admission.
\<close>

theorem sliding_window:
  assumes full: "length (index_requests rl k) = 30"
    and denied: "snd (Allow rl k t1) = False"
    and passed: "Min (set (index_requests rl k)) + 60000000000 \<le> t2"
  shows "snd (Allow (fst (Allow rl k t1)) k t2) = True
         \<and> (length (filter (\<lambda>t. 60000000000 \<le> t2 - t) (index_requests rl k)) = 1
            \<longrightarrow> length (index_requests (fst (Allow (fst (Allow rl k t1)) k t2)) k) = 30)"
proof -
  let ?reqs = "index_requests rl k"
  let ?valid = "filter (\<lambda>t. t2 - t < 60000000000) ?reqs"
  let ?old = "filter (\<lambda>t. 60000000000 \<le> t2 - t) ?reqs"
  have same: "fst (Allow rl k t1) = rl"
    using denied by (simp add: Allow_def Let_def split: if_splits)
  have "?reqs \<noteq> []" using full by auto
  then have "Min (set ?reqs) \<in> set ?reqs" by simp
  with passed have "Min (set ?reqs) \<in> set ?old" by simp
  then have "0 < length ?old" by (metis length_pos_if_in_set)
  moreover have split: "length ?valid + length ?old = length ?reqs"
    using sum_length_filter_compl [of "\<lambda>t. t2 - t < 60000000000" ?reqs]
    by (simp add: not_less)
  ultimately have lt: "length ?valid < 30" using full by linarith
  then have ok: "snd (Allow rl k t2)"
    by (simp add: snd_Allow filter_Sub)
  have "length ?old = 1 \<Longrightarrow> length (index_requests (fst (Allow rl k t2)) k) = 30"
    using split full ok by (simp add: index_requests_Allow_same filter_Sub)
  with ok show ?thesis by (simp add: same)
qed

theorem sliding_window_witness:
  "length (index_requests (fst (run rateLimiter (second_apart ''203.0.113.9'' 30))) ''203.0.113.9'') = 30
   \<and> snd (Allow (fst (run rateLimiter (second_apart ''203.0.113.9'' 30))) ''203.0.113.9'' (30 * Second)) = False
   \<and> Min (set (index_requests (fst (run rateLimiter (second_apart ''203.0.113.9'' 30))) ''203.0.113.9''))
        + 60000000000 \<le> 60 * Second
   \<and> length (filter (\<lambda>t. 60000000000 \<le> 60 * Second - t)
        (index_requests (fst (run rateLimiter (second_apart ''203.0.113.9'' 30))) ''203.0.113.9'')) = 1
   \<and> snd (Allow (fst (Allow (fst (run rateLimiter (second_apart ''203.0.113.9'' 30)))
        ''203.0.113.9'' (30 * Second))) ''203.0.113.9'' (60 * Second)) = True
   \<and> length (index_requests (fst (Allow (fst (Allow (fst (run rateLimiter
        (second_apart ''203.0.113.9'' 30))) ''203.0.113.9'' (30 * Second))) ''203.0.113.9''
        (60 * Second))) ''203.0.113.9'') = 30"
proof -
  let ?rl = "fst (run rateLimiter (second_apart ''203.0.113.9'' 30))"
  have a: "length (index_requests ?rl ''203.0.113.9'') = 30" by code_simp
  have b: "snd (Allow ?rl ''203.0.113.9'' (30 * Second)) = False" by code_simp
  have c: "Min (set (index_requests ?rl ''203.0.113.9'')) + 60000000000 \<le> 60 * Second"
    by code_simp
  have d: "length (filter (\<lambda>t. 60000000000 \<le> 60 * Second - t)
        (index_requests ?rl ''203.0.113.9'')) = 1" by code_simp
  show ?thesis
    using a b c d sliding_window [OF a b c] by blast
qed

lemma Allow_cong:
  assumes "index_requests rl1 k = index_requests rl2 k"
  shows "snd (Allow rl1 k now) = snd (Allow rl2 k now)"
    and "index_requests (fst (Allow rl1 k now)) k = index_requests (fst (Allow rl2 k now)) k"
  using assms by (simp_all add: snd_Allow index_requests_Allow_same)

lemma run_without:
  assumes "A \<noteq> B" and "index_requests rl1 B = index_requests rl2 B"
  shows "index_requests (fst (run rl1 calls)) B
           = index_requests (fst (run rl2 (filter (\<lambda>c. fst c \<noteq> A) calls))) B
         \<and> results B calls (snd (run rl1 calls))
           = results B (filter (\<lambda>c. fst c \<noteq> A) calls)
               (snd (run rl2 (filter (\<lambda>c. fst c \<noteq> A) calls)))"
  using assms(2)
proof (induction calls arbitrary: rl1 rl2)
  case Nil
  then show ?case by (simp add: results_def)
next
  case (Cons c calls)
  obtain ip now where c: "c = (ip, now)" by (cases c)
  show ?case
  proof (cases "ip = A")
    case True
    with assms(1) have "index_requests (fst (Allow rl1 ip now)) B = index_requests rl2 B"
      using Cons.prems by (simp add: index_requests_Allow_other)
    from Cons.IH [OF this] True assms(1) show ?thesis
      by (simp add: c fst_run_Cons snd_run_Cons results_def del: run.simps)
  next
    case False
    have ok: "ip = B \<Longrightarrow> snd (Allow rl1 ip now) = snd (Allow rl2 ip now)"
      using Cons.prems by (simp add: snd_Allow)
    have "index_requests (fst (Allow rl1 ip now)) B = index_requests (fst (Allow rl2 ip now)) B"
    proof (cases "ip = B")
      case True
      with Cons.prems show ?thesis by (simp add: index_requests_Allow_same snd_Allow)
    next
      case False
      with Cons.prems show ?thesis by (simp add: index_requests_Allow_other)
    qed
    from Cons.IH [OF this] False ok show ?thesis
      by (auto simp: c fst_run_Cons snd_run_Cons results_def simp del: run.simps)
  qed
qed

text \<open>
  C7. For distinct keys \<open>A\<close> and \<open>B\<close> and any limiter: a sequence of calls for \<open>A\<close> leaves
  the stored sequence of \<open>B\<close> as it was and the result of a call for \<open>B\<close> after them is
  the result it would have had without them; and in any run, dropping the calls for \<open>A\<close>
  changes neither the booleans returned to \<open>B\<close> nor the final stored sequence of \<open>B\<close>.
\<close>

theorem keys_independent:
  assumes "A \<noteq> B"
  shows "index_requests (fst (run rl (map (Pair A) ts))) B = index_requests rl B
         \<and> snd (Allow (fst (run rl (map (Pair A) ts))) B now) = snd (Allow rl B now)
         \<and> index_requests (fst (run rl calls)) B
             = index_requests (fst (run rl (filter (\<lambda>c. fst c \<noteq> A) calls))) B
         \<and> results B calls (snd (run rl calls))
             = results B (filter (\<lambda>c. fst c \<noteq> A) calls)
                 (snd (run rl (filter (\<lambda>c. fst c \<noteq> A) calls)))"
proof -
  have "filter (\<lambda>c. fst c \<noteq> A) (map (Pair A) ts) = []"
    by (induction ts) simp_all
  with run_without [OF assms refl, of rl "map (Pair A) ts"]
  have 1: "index_requests (fst (run rl (map (Pair A) ts))) B = index_requests rl B"
    by simp
  then have 2: "snd (Allow (fst (run rl (map (Pair A) ts))) B now) = snd (Allow rl B now)"
    by (rule Allow_cong)
  from 1 2 run_without [OF assms refl, of rl calls] show ?thesis by simp
qed

theorem keys_independent_witness:
  "''10.0.0.1'' \<noteq> ''10.0.0.2''
   \<and> index_requests (fst (run rateLimiter (map (Pair ''10.0.0.1'') (replicate 31 0)))) ''10.0.0.2''
       = index_requests rateLimiter ''10.0.0.2''
   \<and> snd (Allow (fst (run rateLimiter (map (Pair ''10.0.0.1'') (replicate 31 0)))) ''10.0.0.2'' 0)
       = snd (Allow rateLimiter ''10.0.0.2'' 0)
   \<and> snd (Allow (fst (run rateLimiter (map (Pair ''10.0.0.1'') (replicate 31 0)))) ''10.0.0.1'' 0)
       = False
   \<and> snd (Allow rateLimiter ''10.0.0.2'' 0) = True"
proof -
  have n: "''10.0.0.1'' \<noteq> ''10.0.0.2''" by simp
  have d: "snd (Allow (fst (run rateLimiter (map (Pair ''10.0.0.1'') (replicate 31 0)))) ''10.0.0.1'' 0)
       = False" by code_simp
  have t: "snd (Allow rateLimiter ''10.0.0.2'' 0) = True" by code_simp
  note k = keys_independent [OF n, of rateLimiter "replicate 31 0" 0 "[]"]
  show ?thesis
    using n k [THEN conjunct1] k [THEN conjunct2, THEN conjunct1] d t
    by (intro conjI) assumption+
qed

section \<open>Properties of the client key\<close>

lemma Split_not_Nil: "Split s sep \<noteq> []"
  by (induction s) (auto split: list.splits)

lemma hd_Split: "hd (Split s sep) = takeWhile (\<lambda>c. c \<noteq> sep) s"
  by (induction s) (auto split: list.splits simp: Split_not_Nil)

lemma IndexByte_Some: "IndexByte s c = Some i \<Longrightarrow> i < length s \<and> s ! i = c"
  by (induction s arbitrary: i) (auto split: if_splits option.splits)

lemma LastIndexByte_Some: "LastIndexByte s c = Some i \<Longrightarrow> i < length s \<and> s ! i = c"
  by (induction s arbitrary: i) (auto split: if_splits option.splits)

lemma split_at_index: "i < length s \<Longrightarrow> s = take i s @ [s ! i] @ drop (i + 1) s"
  by (simp add: id_take_nth_drop)

lemma SplitHostPort_Inr:
  assumes "SplitHostPort a = Inr (host, port)"
  shows "a = host @ '':'' @ port \<or> a = ''['' @ host @ '']:'' @ port"
proof -
  from assms obtain i where i: "LastIndexByte a (CHR '':'') = Some i"
    by (auto simp: SplitHostPort_def split: option.splits)
  then have il: "i < length a" and ai: "a ! i = CHR '':''"
    by (auto dest: LastIndexByte_Some)
  show ?thesis
  proof (cases "a ! 0 = CHR ''[''")
    case False
    with assms i have "host = take i a" and "port = drop (i + 1) a"
      by (auto simp: SplitHostPort_def checkBrackets_def Let_def split: if_splits)
    with split_at_index [OF il] ai show ?thesis by simp
  next
    case True
    with assms i obtain e where e: "IndexByte a (CHR '']'') = Some e" and ei: "e + 1 = i"
      and h: "host = take (e - 1) (drop 1 a)" and p: "port = drop (i + 1) a"
      by (auto simp: SplitHostPort_def checkBrackets_def split: if_splits option.splits)
    from e have el: "e < length a" and ae: "a ! e = CHR '']''"
      by (auto dest: IndexByte_Some)
    have e0: "e \<noteq> 0"
    proof
      assume "e = 0"
      with True ae show False by simp
    qed
    have "a = take e a @ [a ! e] @ drop (e + 1) a"
      using el by (rule split_at_index)
    also have "drop (e + 1) a = [a ! i] @ drop (i + 1) a"
      using il ei by (metis Cons_nth_drop_Suc Suc_eq_plus1 append_Cons append_Nil)
    also have "take e a = [a ! 0] @ take (e - 1) (drop 1 a)"
      using e0 el by (cases a; cases e) simp_all
    finally show ?thesis using True ae ai h p by simp
  qed
qed

text \<open>
  C8. The key of a request: when the header X-Forwarded-For is not empty, its value up to
  the first comma; otherwise, when the header X-Real-IP is not empty, its value; otherwise
  the host that \<^verbatim>\<open>net.SplitHostPort\<close> finds in the peer address, which is the address
  without its colon and port (and without the brackets around the host, if any), or the
  peer address itself when it cannot be split.
\<close>

theorem getClientIP_precedence:
  "(Get (Header r) ''X-Forwarded-For'' \<noteq> [] \<longrightarrow>
      getClientIP r = takeWhile (\<lambda>c. c \<noteq> CHR '','') (Get (Header r) ''X-Forwarded-For''))
   \<and> (Get (Header r) ''X-Forwarded-For'' = [] \<and> Get (Header r) ''X-Real-IP'' \<noteq> [] \<longrightarrow>
      getClientIP r = Get (Header r) ''X-Real-IP'')
   \<and> (Get (Header r) ''X-Forwarded-For'' = [] \<and> Get (Header r) ''X-Real-IP'' = [] \<longrightarrow>
      (case SplitHostPort (RemoteAddr r) of
         Inl err \<Rightarrow> getClientIP r = RemoteAddr r
       | Inr (host, port) \<Rightarrow>
           getClientIP r = host
           \<and> (RemoteAddr r = host @ '':'' @ port \<or> RemoteAddr r = ''['' @ host @ '']:'' @ port)))"
  by (auto simp: getClientIP_def hd_Split split: sum.splits dest: SplitHostPort_Inr)

theorem getClientIP_precedence_witness:
  "getClientIP sample_forwarded = ''203.0.113.5''
   \<and> getClientIP sample_real_ip = ''198.51.100.7''
   \<and> getClientIP sample_direct = ''192.0.2.44''"
proof -
  have f: "Get (Header sample_forwarded) ''X-Forwarded-For'' = ''203.0.113.5, 10.0.0.1''"
    by (simp add: sample_forwarded_def Get_def)
  have r: "Get (Header sample_real_ip) ''X-Forwarded-For'' = []"
    "Get (Header sample_real_ip) ''X-Real-IP'' = ''198.51.100.7''"
    by (simp_all add: sample_real_ip_def Get_def)
  have d: "Get (Header sample_direct) ''X-Forwarded-For'' = []"
    "Get (Header sample_direct) ''X-Real-IP'' = []"
    by (simp_all add: sample_direct_def Get_def)
  have s: "SplitHostPort (RemoteAddr sample_direct) = Inr (''192.0.2.44'', ''51234'')"
    by code_simp
  have "getClientIP sample_forwarded = ''203.0.113.5''"
    using getClientIP_precedence [of sample_forwarded] by (simp add: f)
  moreover have "getClientIP sample_real_ip = ''198.51.100.7''"
    using getClientIP_precedence [of sample_real_ip] by (simp add: r)
  moreover have "getClientIP sample_direct = ''192.0.2.44''"
    using getClientIP_precedence [of sample_direct] by (simp add: d s)
  ultimately show ?thesis by simp
qed

section \<open>Properties of the submission handler\<close>

lemma digit_char_decimal:
  assumes "0 \<le> d" "d < 10"
  shows "decimal_digit (digit_char d)"
proof -
  from assms have "d = 0 \<or> d = 1 \<or> d = 2 \<or> d = 3 \<or> d = 4 \<or> d = 5 \<or> d = 6 \<or> d = 7
      \<or> d = 8 \<or> d = 9"
    by arith
  then show ?thesis
    by (elim disjE) (simp_all add: digit_char_def decimal_digit_def)
qed

lemma digits_10_decimal:
  "0 \<le> n \<Longrightarrow> c \<in> set (digits 10 n) \<Longrightarrow> decimal_digit c"
proof (induction "10 :: int" n rule: digits.induct)
  case (1 n)
  show ?case
  proof (cases "n < 10")
    case True
    with "1.prems" digit_char_decimal [of n] show ?thesis
      by (simp add: digits.simps [of 10 n])
  next
    case False
    then have step: "digits 10 n = digits 10 (n div 10) @ [digit_char (n mod 10)]"
      by (simp add: digits.simps [of 10 n])
    have "decimal_digit (digit_char (n mod 10))"
      by (rule digit_char_decimal) simp_all
    moreover have "c \<in> set (digits 10 (n div 10)) \<Longrightarrow> decimal_digit c"
      using False "1.prems"(1) by (intro "1.hyps") simp_all
    ultimately show ?thesis
      using "1.prems"(2) unfolding step by auto
  qed
qed

lemma length_digits_10:
  "0 \<le> n \<Longrightarrow> n < 10 ^ w \<Longrightarrow> 0 < w \<Longrightarrow> length (digits 10 n) \<le> w"
proof (induction "10 :: int" n arbitrary: w rule: digits.induct)
  case (1 n)
  show ?case
  proof (cases "n < 10")
    case True
    with "1.prems" show ?thesis
      by (simp add: digits.simps [of 10 n])
  next
    case False
    then have step: "digits 10 n = digits 10 (n div 10) @ [digit_char (n mod 10)]"
      by (simp add: digits.simps [of 10 n])
    from False "1.prems" have w: "1 < w"
      by (cases "w = 1") auto
    then obtain v where v: "w = Suc v" "0 < v"
      by (cases w) auto
    from "1.prems"(2) have "n div 10 < 10 ^ v"
      by (simp add: v div_less_iff_less_mult)
    then have "length (digits 10 (n div 10)) \<le> v"
      using False "1.prems"(1) v by (intro "1.hyps") simp_all
    then show ?thesis
      by (simp add: step v)
  qed
qed

lemma shape_decimal:
  "(\<And>c. c \<in> set s \<Longrightarrow> decimal_digit c) \<Longrightarrow> shape s = replicate (length s) (CHR ''0'')"
  by (induction s) (simp_all add: shape_def)

lemma shape_append: "shape (xs @ ys) = shape xs @ shape ys"
  by (simp add: shape_def)

lemma shape_appendInt:
  assumes "0 \<le> n" "n < 10 ^ w" "0 < w"
  shows "shape (appendInt n w) = replicate w (CHR ''0'')"
proof -
  have len: "length (digits 10 n) \<le> w"
    using assms by (rule length_digits_10)
  have "shape (digits 10 n) = replicate (length (digits 10 n)) (CHR ''0'')"
    using assms(1) by (intro shape_decimal) (rule digits_10_decimal)
  moreover have "shape (replicate (w - length (digits 10 n)) (CHR ''0''))
      = replicate (w - length (digits 10 n)) (CHR ''0'')"
    by (simp add: shape_def)
  ultimately have "shape (appendInt n w)
      = replicate (w - length (digits 10 n) + length (digits 10 n)) (CHR ''0'')"
    by (simp add: appendInt_def shape_append replicate_add)
  with len show ?thesis by simp
qed

lemma is_timestamp_Format:
  assumes "valid_civil t"
  shows "is_timestamp (Format t)"
proof -
  from assms have
    "shape (appendInt (civil_year t) 4) = replicate 4 (CHR ''0'')"
    "shape (appendInt (civil_month t) 2) = replicate 2 (CHR ''0'')"
    "shape (appendInt (civil_day t) 2) = replicate 2 (CHR ''0'')"
    "shape (appendInt (civil_hour t) 2) = replicate 2 (CHR ''0'')"
    "shape (appendInt (civil_min t) 2) = replicate 2 (CHR ''0'')"
    "shape (appendInt (civil_sec t) 2) = replicate 2 (CHR ''0'')"
    by (simp_all add: valid_civil_def shape_appendInt)
  then have "shape (Format t) = replicate 4 (CHR ''0'') @ ''-'' @ replicate 2 (CHR ''0'') @ ''-''
      @ replicate 2 (CHR ''0'') @ '' '' @ replicate 2 (CHR ''0'') @ '':''
      @ replicate 2 (CHR ''0'') @ '':'' @ replicate 2 (CHR ''0'')"
    unfolding Format_def shape_append by (simp add: shape_def decimal_digit_def)
  then show ?thesis
    by (simp add: is_timestamp_def numeral_eq_Suc)
qed

text \<open>
  C9. For a POST request that \<open>Allow\<close> admits and whose body decodes to a record \<open>info\<close>,
  at a clock within the calendar of four-digit years: the reply has status 200 and carries
  a record whose timestamp is the formatted clock, of the form \<^verbatim>\<open>YYYY-MM-DD HH:MM:SS\<close>, and
  whose client identifier is the resolved key, whatever \<open>info\<close> held in those two fields;
  putting the two fields of \<open>info\<close> back gives \<open>info\<close>, so every other field is as decoded,
  the user agent among them.
\<close>

theorem collect_assigns_two_fields:
  assumes "Method r = ''POST''"
    and "snd (Allow rl (getClientIP r) now) = True"
    and "Decode (Body r) = Inr info"
    and "valid_civil clock"
  shows "\<exists>info'. returned_record (snd (collectHandler Decode rl r now clock)) = Some info'
           \<and> StatusCode (snd (collectHandler Decode rl r now clock)) = 200
           \<and> Timestamp info' = Format clock \<and> is_timestamp (Timestamp info')
           \<and> IPAddress info' = getClientIP r
           \<and> info'\<lparr>Timestamp := Timestamp info, IPAddress := IPAddress info\<rparr> = info
           \<and> UserAgent info' = UserAgent info"
proof -
  obtain rl' where a: "Allow rl (getClientIP r) now = (rl', True)"
    using assms(2) by (cases "Allow rl (getClientIP r) now") simp
  have "collectHandler Decode rl r now clock =
      (rl', \<lparr>StatusCode = 200, Payload = Some
         \<lparr>Status = ''success'', Message = msgCollected,
          Data = Some (info\<lparr>Timestamp := Format clock, IPAddress := getClientIP r\<rparr>)\<rparr>\<rparr>)"
    using assms(1,3) a by (simp add: collectHandler_def)
  then show ?thesis
    using is_timestamp_Format [OF assms(4)] by (simp add: returned_record_def)
qed

theorem collect_assigns_two_fields_witness:
  "Method sample_submission = ''POST''
   \<and> snd (Allow rateLimiter (getClientIP sample_submission) 0) = True
   \<and> valid_civil sample_clock
   \<and> (\<exists>info'. returned_record (snd (collectHandler (\<lambda>body. Inr sample_info) rateLimiter
                  sample_submission 0 sample_clock)) = Some info'
         \<and> Timestamp info' = ''2026-10-31 05:36:07''
         \<and> IPAddress info' = ''203.0.113.5''
         \<and> UserAgent info' = ''test-agent'')"
proof -
  have m: "Method sample_submission = ''POST''"
    by (simp add: sample_submission_def)
  have k: "getClientIP sample_submission = ''203.0.113.5''"
    by (simp add: getClientIP_def Get_def sample_submission_def)
  have a: "snd (Allow rateLimiter (getClientIP sample_submission) 0) = True"
    unfolding k by code_simp
  have d: "(\<lambda>body. Inr sample_info) (Body sample_submission) = Inr sample_info"
    by simp
  have v: "valid_civil sample_clock"
    by (simp add: valid_civil_def sample_clock_def)
  have f: "Format sample_clock = ''2026-10-31 05:36:07''"
    by code_simp
  have u: "UserAgent sample_info = ''test-agent''"
    by (simp add: sample_info_def)
  from collect_assigns_two_fields [OF m a d v]
  obtain info' where r: "returned_record (snd (collectHandler (\<lambda>body. Inr sample_info)
        rateLimiter sample_submission 0 sample_clock)) = Some info'"
    and t: "Timestamp info' = Format sample_clock"
    and i: "IPAddress info' = getClientIP sample_submission"
    and g: "UserAgent info' = UserAgent sample_info"
    by blast
  from t i g have "Timestamp info' = ''2026-10-31 05:36:07''"
    and "IPAddress info' = ''203.0.113.5''" and "UserAgent info' = ''test-agent''"
    by (simp_all only: f k u)
  with r have "\<exists>info'. returned_record (snd (collectHandler (\<lambda>body. Inr sample_info) rateLimiter
                  sample_submission 0 sample_clock)) = Some info'
         \<and> Timestamp info' = ''2026-10-31 05:36:07''
         \<and> IPAddress info' = ''203.0.113.5''
         \<and> UserAgent info' = ''test-agent''"
    by blast
  with m a v show ?thesis
    by (intro conjI)
qed

section \<open>Properties of the fingerprint reducer\<close>

lemma mod_shift_half:
  fixes m :: int
  assumes "0 \<le> m" "m < 4294967296"
  shows "(m + 2147483648) mod 4294967296
        = (if m < 2147483648 then m + 2147483648 else m - 2147483648)"
proof (cases "m < 2147483648")
  case True
  with assms show ?thesis by (simp add: mod_pos_pos_trivial)
next
  case False
  have "m + 2147483648 = m - 2147483648 + 4294967296"
    by simp
  then have "(m + 2147483648) mod 4294967296 = (m - 2147483648 + 4294967296) mod 4294967296"
    by (simp only:)
  also have "\<dots> = (m - 2147483648) mod 4294967296"
    by (simp only: mod_add_self2)
  also have "\<dots> = m - 2147483648"
    using False assms by (simp add: mod_pos_pos_trivial)
  finally show ?thesis using False by simp
qed

lemma ToInt32_sint: "ToInt32 x = sint (word_of_int x :: 32 word)"
proof -
  have "sint (word_of_int x :: 32 word) = signed_take_bit 31 x"
    by (simp add: sint_sbintrunc')
  also have "\<dots> = take_bit 32 (x + 2 ^ 31) - 2 ^ 31"
    by (simp add: signed_take_bit_eq_take_bit_shift)
  also have "\<dots> = (x + 2147483648) mod 4294967296 - 2147483648"
    by (simp add: take_bit_eq_mod)
  also have "(x + 2147483648) mod 4294967296 = (x mod 4294967296 + 2147483648) mod 4294967296"
    by (simp add: mod_add_left_eq)
  also have "\<dots> = (if x mod 4294967296 < 2147483648 then x mod 4294967296 + 2147483648
           else x mod 4294967296 - 2147483648)"
    by (rule mod_shift_half) simp_all
  finally show ?thesis
    by (simp add: ToInt32_def Let_def)
qed

lemma hash_step_sint: "hash_step (sint w) c = sint (spec_step w c)"
proof -
  have 1: "(word_of_int (sint w * 2 ^ 5) :: 32 word) = push_bit 5 w"
    by (simp only: of_int_sint of_int_mult of_int_power of_int_numeral push_bit_eq_mult scast_id)
  have 2: "(word_of_int (uint c) :: 32 word) = ucast c"
    by (simp only: ucast_eq)
  have "(word_of_int (sint (word_of_int (sint w * 2 ^ 5) :: 32 word) - sint w + uint c) :: 32 word)
        = word_of_int (sint (word_of_int (sint w * 2 ^ 5) :: 32 word)) - word_of_int (sint w)
          + word_of_int (uint c)"
    by (simp only: of_int_add of_int_diff)
  also have "\<dots> = push_bit 5 w - w + ucast c"
    by (simp only: of_int_sint scast_id 1 2)
  finally show ?thesis
    by (simp only: hash_step_def spec_step_def ToInt32_sint Let_def of_int_sint scast_id)
qed

lemma hash_loop_sint: "hash_loop (sint w) str = sint (foldl spec_step w str)"
  by (induction str arbitrary: w) (simp_all only: hash_loop.simps foldl.simps hash_step_sint)

lemma hash_loop_spec: "hash_loop 0 str = sint (spec_accumulator str)"
  using hash_loop_sint [of 0 str] by (simp add: spec_accumulator_def)

lemma hash_loop_range: "- 2147483648 \<le> hash_loop 0 str \<and> hash_loop 0 str < 2147483648"
  unfolding hash_loop_spec
  using sint_ge [of "spec_accumulator str"] sint_lt [of "spec_accumulator str"] by simp


lemma digit_char_hex:
  assumes "0 \<le> d" "d < 16"
  shows "lower_hex_digit (digit_char d)" and "hex_digit_value (digit_char d) = d"
    and "d \<noteq> 0 \<Longrightarrow> digit_char d \<noteq> CHR ''0''"
proof -
  from assms have "d = 0 \<or> d = 1 \<or> d = 2 \<or> d = 3 \<or> d = 4 \<or> d = 5 \<or> d = 6 \<or> d = 7
      \<or> d = 8 \<or> d = 9 \<or> d = 10 \<or> d = 11 \<or> d = 12 \<or> d = 13 \<or> d = 14 \<or> d = 15"
    by arith
  then show "lower_hex_digit (digit_char d)" and "hex_digit_value (digit_char d) = d"
    and "d \<noteq> 0 \<Longrightarrow> digit_char d \<noteq> CHR ''0''"
    by (elim disjE;
        simp add: digit_char_def lower_hex_digit_def hex_digit_value_def decimal_digit_def)+
qed

lemma hex_value_snoc: "hex_value (s @ [c]) = 16 * hex_value s + hex_digit_value c"
  by (simp add: hex_value_def)

lemma digits_not_Nil: "digits radix n \<noteq> []"
  by (subst digits.simps) simp

lemma digits_small: "n < radix \<Longrightarrow> digits radix n = [digit_char n]"
  by (subst digits.simps) simp

lemma digits_16_step:
  "16 \<le> n \<Longrightarrow> digits 16 n = digits 16 (n div 16) @ [digit_char (n mod 16)]"
  by (subst digits.simps) simp

lemma hex_value_digits: "0 \<le> n \<Longrightarrow> hex_value (digits 16 n) = n"
proof (induction "16 :: int" n rule: digits.induct)
  case (1 n)
  show ?case
  proof (cases "n < 16")
    case True
    with "1.prems" show ?thesis
      by (simp add: digits_small hex_value_def digit_char_hex(2))
  next
    case False
    then have "hex_value (digits 16 (n div 16)) = n div 16"
      using "1.prems" by (intro "1.hyps") simp_all
    with False show ?thesis
      by (simp add: digits_16_step hex_value_snoc digit_char_hex(2))
  qed
qed

lemma list_all_digits_16: "0 \<le> n \<Longrightarrow> list_all lower_hex_digit (digits 16 n)"
proof (induction "16 :: int" n rule: digits.induct)
  case (1 n)
  show ?case
  proof (cases "n < 16")
    case True
    with "1.prems" show ?thesis
      by (simp add: digits_small digit_char_hex(1))
  next
    case False
    then have "list_all lower_hex_digit (digits 16 (n div 16))"
      using "1.prems" by (intro "1.hyps") simp_all
    with False show ?thesis
      by (simp add: digits_16_step digit_char_hex(1))
  qed
qed

lemma hd_digits_16: "0 < n \<Longrightarrow> hd (digits 16 n) \<noteq> CHR ''0''"
proof (induction "16 :: int" n rule: digits.induct)
  case (1 n)
  show ?case
  proof (cases "n < 16")
    case True
    with "1.prems" show ?thesis
      by (simp add: digits_small digit_char_hex(3))
  next
    case False
    then have "hd (digits 16 (n div 16)) \<noteq> CHR ''0''"
      by (intro "1.hyps") (simp_all add: pos_imp_zdiv_pos_iff)
    with False show ?thesis
      by (simp add: digits_16_step digits_not_Nil)
  qed
qed

lemma is_lower_hex_digits: "0 \<le> n \<Longrightarrow> is_lower_hex (digits 16 n)"
proof (cases "n = 0")
  case True
  then show ?thesis
    by (simp add: is_lower_hex_def digits_small digit_char_def lower_hex_digit_def)
next
  case False
  assume "0 \<le> n"
  with False have "0 < n" by simp
  then show ?thesis
    using list_all_digits_16 [of n] hd_digits_16 [of n]
    by (simp add: is_lower_hex_def digits_not_Nil)
qed

lemma hashString_Nil: "hashString [] = ''0''"
  by (simp add: hashString_def Number_toString_def digits_small digit_char_def)

lemma hashString_digits:
  "str \<noteq> [] \<Longrightarrow> hashString str = digits 16 \<bar>hash_loop 0 str\<bar>"
  by (simp add: hashString_def Number_toString_def)

text \<open>
  C3. \<open>hashString\<close> computes the digest the specification describes: with the 32-bit
  accumulator that starts at zero and takes \<open>(acc << 5) - acc + c\<close> for each code unit in
  order, wrapping in two's complement, the output is lowercase hexadecimal without leading
  zeros or sign, and it denotes the absolute value of the accumulator read as a signed
  number. The empty input gives \<^verbatim>\<open>0\<close>.
\<close>

theorem hashString_refines_spec:
  "hashString [] = ''0''
   \<and> is_lower_hex (hashString str)
   \<and> hex_value (hashString str) = \<bar>sint (spec_accumulator str)\<bar>"
proof (cases "str = []")
  case True
  then show ?thesis
    by (simp add: hashString_Nil is_lower_hex_def lower_hex_digit_def hex_value_def
        hex_digit_value_def decimal_digit_def spec_accumulator_def)
next
  case False
  then show ?thesis
    by (simp add: hashString_Nil hashString_digits is_lower_hex_digits hex_value_digits
        hash_loop_spec)
qed

lemma digits_16_min_int: "digits 16 2147483648 = ''80000000''"
  by code_simp

text \<open>
  C10. \<open>hashString\<close> is a total function and the number its digest denotes lies between 0
  and \<open>2 ^ 31\<close>, both included. The absolute value is taken on numbers, not in 32 bits:
  when the accumulator ends at \<open>- 2 ^ 31\<close> the digest is \<^verbatim>\<open>80000000\<close>, where the variant
  with a 32-bit absolute value gives \<^verbatim>\<open>-80000000\<close>; and on every non-empty input the two
  agree exactly when the accumulator does not end at \<open>- 2 ^ 31\<close>.
\<close>

theorem hashString_range:
  "0 \<le> hex_value (hashString str) \<and> hex_value (hashString str) \<le> 2 ^ 31
   \<and> (hash_loop 0 str = - (2 ^ 31) \<longrightarrow>
        hashString str = ''80000000'' \<and> hashString_abs32 str = ''-80000000'')
   \<and> (str \<noteq> [] \<longrightarrow>
        (hashString_abs32 str = hashString str \<longleftrightarrow> hash_loop 0 str \<noteq> - (2 ^ 31)))"
proof -
  have v: "hex_value (hashString str) = \<bar>hash_loop 0 str\<bar>"
  proof (cases "str = []")
    case True
    then show ?thesis
      by (simp add: hashString_Nil hex_value_def hex_digit_value_def decimal_digit_def)
  next
    case False
    then show ?thesis
      by (simp add: hashString_digits hex_value_digits)
  qed
  note r = hash_loop_range [of str]
  have min_case: "hashString str = ''80000000'' \<and> hashString_abs32 str = ''-80000000''"
    if m: "hash_loop 0 str = - 2147483648"
  proof -
    from m have ne: "str \<noteq> []" by auto
    have "ToInt32 2147483648 = - 2147483648"
      by (simp add: ToInt32_def)
    with m ne show ?thesis
      by (simp add: hashString_def hashString_abs32_def Number_toString_def digits_16_min_int)
  qed
  have other: "hashString_abs32 str = hashString str"
    if ne: "str \<noteq> []" and m: "hash_loop 0 str \<noteq> - 2147483648"
  proof -
    from r m have "0 \<le> \<bar>hash_loop 0 str\<bar>" "\<bar>hash_loop 0 str\<bar> < 2147483648"
      by auto
    then have "ToInt32 \<bar>hash_loop 0 str\<bar> = \<bar>hash_loop 0 str\<bar>"
      by (simp add: ToInt32_def mod_pos_pos_trivial)
    with ne show ?thesis
      by (simp add: hashString_def hashString_abs32_def)
  qed
  from v r min_case other show ?thesis
    by auto
qed

theorem hashString_range_witness:
  "hash_loop 0 (ascii ''polygenelubricants'') = - (2 ^ 31)
   \<and> hashString (ascii ''polygenelubricants'') = ''80000000''
   \<and> hashString_abs32 (ascii ''polygenelubricants'') = ''-80000000''
   \<and> hex_value (hashString (ascii ''polygenelubricants'')) \<le> 2 ^ 31"
proof -
  have m: "hash_loop 0 (ascii ''polygenelubricants'') = - (2 ^ 31)"
    by code_simp
  note t = hashString_range [of "ascii ''polygenelubricants''"]
  from t m have a: "hashString (ascii ''polygenelubricants'') = ''80000000''
      \<and> hashString_abs32 (ascii ''polygenelubricants'') = ''-80000000''"
    by blast
  from t have b: "hex_value (hashString (ascii ''polygenelubricants'')) \<le> 2 ^ 31"
    by blast
  from m a b show ?thesis
    by blast
qed

theorem hashString_refines_spec_witness:
  "hashString (ascii ''hello'') = ''5e918d2''
   \<and> is_lower_hex (hashString (ascii ''hello''))
   \<and> hex_value (hashString (ascii ''hello'')) = 99162322"
proof -
  have s: "sint (spec_accumulator (ascii ''hello'')) = 99162322"
    by code_simp
  have h: "hashString (ascii ''hello'') = ''5e918d2''"
    by code_simp
  note t = hashString_refines_spec [of "ascii ''hello''"]
  from t have l: "is_lower_hex (hashString (ascii ''hello''))"
    by blast
  from t have "hex_value (hashString (ascii ''hello'')) = \<bar>sint (spec_accumulator (ascii ''hello''))\<bar>"
    by blast
  then have v: "hex_value (hashString (ascii ''hello'')) = 99162322"
    unfolding s by simp
  from h l v show ?thesis
    by blast
qed

end
